theory Spec2Isabelle
  imports Main "HOL-Library.Word" "HOL-Library.Multiset"
begin

section \<open>The in-memory FASTA reader of nucleus\<close>

text \<open>
  A shallow embedding of \<^verbatim>\<open>third_party/nucleus/io/in_memory_fasta_reader.cc\<close>:
  the factory \<^verbatim>\<open>InMemoryFastaReader::Create\<close>, the range query
  \<^verbatim>\<open>InMemoryFastaReader::GetBases\<close> and the iterator step
  \<^verbatim>\<open>FastaFullFileIterable::Next\<close>.
\<close>

subsection \<open>Data\<close>

text \<open>
  The messages \<^verbatim>\<open>Range\<close> and \<^verbatim>\<open>ReferenceSequence\<close> have the fields the source
  reads; their coordinates are \<^verbatim>\<open>int64\<close>, 64-bit words read as two's complement.
\<close>

type_synonym int64 = "64 word"

text \<open>
  \<^verbatim>\<open>nucleus::genomics::v1::Range\<close>: the fields \<^verbatim>\<open>reference_name\<close>,
  \<^verbatim>\<open>start\<close> and \<^verbatim>\<open>end\<close> (here \<open>end'\<close>, as \<open>end\<close> is a keyword).
\<close>

record Range =
  reference_name :: string
  start :: int64
  end' :: int64

text \<open>\<^verbatim>\<open>nucleus::genomics::v1::ReferenceSequence\<close>: a region and its bases.\<close>

record ReferenceSequence =
  region :: Range
  bases :: string

text \<open>
  Modelled from the spec: the message \<^verbatim>\<open>ContigInfo\<close> is declared in
  \<^verbatim>\<open>reference.proto\<close>, which is not among the sources. The spec lists a name, an
  ordinal position and a length; the reader only ever reads the name.
\<close>

record ContigInfo =
  name :: string
  pos_in_fasta :: int
  n_bases :: int

text \<open>
  The ways a call can fail: the status \<^verbatim>\<open>InvalidArgument\<close> (its message is not
  modelled), the liveness error of the iterable base class, and the exception
  \<^verbatim>\<open>std::out_of_range\<close> that \<^verbatim>\<open>unordered_map::at\<close> and \<^verbatim>\<open>string::substr\<close>
  throw.
\<close>

datatype error = InvalidArgument | LivenessError | std_out_of_range

type_synonym seqs_map = "string \<rightharpoonup> ReferenceSequence"

text \<open>The members \<^verbatim>\<open>contigs_\<close> and \<^verbatim>\<open>seqs_\<close> of \<^verbatim>\<open>InMemoryFastaReader\<close>
  (a name cannot end in an underscore here, so the members carry a prime instead).\<close>

record InMemoryFastaReader =
  contigs' :: "ContigInfo list"
  seqs' :: seqs_map

text \<open>\<^verbatim>\<open>GenomeReferenceRecord\<close> is a pair of a name and its bases.\<close>

type_synonym GenomeReferenceRecord = "string \<times> string"

text \<open>
  The iterator: the reader it was made from (\<open>None\<close> once the reader has been
  released) and the member \<^verbatim>\<open>pos_\<close>, a \<^verbatim>\<open>size_t\<close> that starts at 0.
\<close>

record FastaFullFileIterable =
  reader' :: "InMemoryFastaReader option"
  pos' :: nat

subsection \<open>Library operations\<close>

text \<open>
  \<^verbatim>\<open>unordered_map::emplace\<close>: inserts when the key is absent and reports whether it
  inserted; an existing entry is left as it is.
\<close>

definition emplace :: "seqs_map \<Rightarrow> string \<Rightarrow> ReferenceSequence \<Rightarrow> seqs_map \<times> bool" where
  "emplace m k v = (case m k of None \<Rightarrow> (m(k \<mapsto> v), True) | Some _ \<Rightarrow> (m, False))"

text \<open>\<^verbatim>\<open>unordered_map::at\<close>: throws \<^verbatim>\<open>std::out_of_range\<close> when the key is absent.\<close>

definition at :: "seqs_map \<Rightarrow> string \<Rightarrow> error + ReferenceSequence" where
  "at m k = (case m k of None \<Rightarrow> Inl std_out_of_range | Some v \<Rightarrow> Inr v)"

text \<open>
  \<^verbatim>\<open>string::substr(pos, len)\<close>: throws \<^verbatim>\<open>std::out_of_range\<close> when \<open>pos\<close> is
  beyond the size, and otherwise returns the characters from \<open>pos\<close> on, at most
  \<open>len\<close> of them.
\<close>

definition substr :: "string \<Rightarrow> nat \<Rightarrow> nat \<Rightarrow> error + string" where
  "substr s pos len = (if length s < pos then Inl std_out_of_range else Inr (take len (drop pos s)))"

text \<open>
  Modelled from the spec: \<^verbatim>\<open>IsValidInterval\<close> is declared outside the sources. The
  spec gives it the shape checks of a region: a non-empty reference name and
  \<open>0 \<le> start \<le> end\<close>.
\<close>

definition IsValidInterval :: "Range \<Rightarrow> bool" where
  "IsValidInterval range' \<longleftrightarrow>
     reference_name range' \<noteq> [] \<and> 0 \<le>s start range' \<and> start range' \<le>s end' range'"

text \<open>
  Modelled from the spec: \<^verbatim>\<open>CheckIsAlive\<close> belongs to the iterable base class, which
  is not among the sources. It fails with a liveness error when the reader is gone.
\<close>

definition CheckIsAlive :: "FastaFullFileIterable \<Rightarrow> error + unit" where
  "CheckIsAlive it = (case reader' it of None \<Rightarrow> Inl LivenessError | Some _ \<Rightarrow> Inr ())"

subsection \<open>Create\<close>

text \<open>
  The loop of \<^verbatim>\<open>Create\<close> over \<^verbatim>\<open>seqs\<close>, with \<^verbatim>\<open>seqs_map\<close> as its state. Each of
  the three checks returns from the factory at once. The region length is the
  \<^verbatim>\<open>int64\<close> difference converted to \<^verbatim>\<open>size_t\<close>.
\<close>

fun Create_loop :: "seqs_map \<Rightarrow> ReferenceSequence list \<Rightarrow> error + seqs_map" where
  "Create_loop seqs_map [] = Inr seqs_map"
| "Create_loop seqs_map (seq # seqs) =
     (if reference_name (region seq) = [] \<or> start (region seq) <s 0 \<or>
         end' (region seq) <s start (region seq)
      then Inl InvalidArgument
      else let region_len = unat (end' (region seq) - start (region seq)) in
        if region_len \<noteq> length (bases seq) then Inl InvalidArgument
        else let insert_result = emplace seqs_map (reference_name (region seq)) seq in
          if \<not> snd insert_result then Inl InvalidArgument
          else Create_loop (fst insert_result) seqs)"

definition Create :: "ContigInfo list \<Rightarrow> ReferenceSequence list \<Rightarrow> error + InMemoryFastaReader" where
  "Create contigs seqs =
     (case Create_loop Map.empty seqs of
        Inl e \<Rightarrow> Inl e
      | Inr seqs_map \<Rightarrow> Inr \<lparr>contigs' = contigs, seqs' = seqs_map\<rparr>)"

subsection \<open>GetBases\<close>

definition GetBases :: "InMemoryFastaReader \<Rightarrow> Range \<Rightarrow> error + string" where
  "GetBases reader range' =
     (if \<not> IsValidInterval range' then Inl InvalidArgument
      else case at (seqs' reader) (reference_name range') of
        Inl e \<Rightarrow> Inl e
      | Inr seq \<Rightarrow>
          if start range' <s start (region seq) \<or> end' (region seq) <s end' range'
          then Inl InvalidArgument
          else let pos = start range' - start (region seq);
                   len = end' range' - start range'
               in substr (bases seq) (unat pos) (unat len))"

subsection \<open>Iterate and Next\<close>

definition Iterate :: "InMemoryFastaReader \<Rightarrow> FastaFullFileIterable" where
  "Iterate reader = \<lparr>reader' = Some reader, pos' = 0\<rparr>"

text \<open>
  \<^verbatim>\<open>Next\<close> returns its status together with the output record and the iterator as
  the call leaves them.
\<close>

definition Next ::
  "FastaFullFileIterable \<Rightarrow> GenomeReferenceRecord \<Rightarrow>
     (error + bool) \<times> GenomeReferenceRecord \<times> FastaFullFileIterable" where
  "Next it out =
     (case CheckIsAlive it of
        Inl e \<Rightarrow> (Inl e, out, it)
      | Inr _ \<Rightarrow>
          let fasta_reader = the (reader' it) in
          if length (contigs' fasta_reader) \<le> pos' it then (Inr False, out, it)
          else let reference_name = name (contigs' fasta_reader ! pos' it) in
            (case seqs' fasta_reader reference_name of
               None \<Rightarrow> (Inr False, out, it)
             | Some seq \<Rightarrow>
                 (Inr True, (reference_name, bases seq), it\<lparr>pos' := pos' it + 1\<rparr>)))"

subsection \<open>A full traversal\<close>

text \<open>
  The caller's loop: call \<^verbatim>\<open>Next\<close> on the same output record until it no longer
  returns true, and collect the record after every call that did. An error ends the
  loop as well. The distance of \<open>pos'\<close> to the end of the contig list bounds the
  number of rounds.
\<close>

definition remaining :: "FastaFullFileIterable \<Rightarrow> nat" where
  "remaining it = (case reader' it of None \<Rightarrow> 0 | Some r \<Rightarrow> length (contigs' r) - pos' it)"

function traverse :: "FastaFullFileIterable \<Rightarrow> GenomeReferenceRecord \<Rightarrow> GenomeReferenceRecord list" where
  "traverse it out =
     (case Next it out of
        (Inr True, out2, it2) \<Rightarrow> out2 # traverse it2 out2
      | _ \<Rightarrow> [])"
  by pat_completeness auto
termination
  by (relation "measure (\<lambda>(it, out). remaining it)")
    (auto simp: Next_def CheckIsAlive_def remaining_def Let_def
      split: option.splits if_splits sum.splits)

text \<open>\<^verbatim>\<open>Next\<close> called \<open>n\<close> more times after a first call; the result of the last call.\<close>

fun Next_again :: "nat \<Rightarrow> FastaFullFileIterable \<Rightarrow> GenomeReferenceRecord \<Rightarrow>
    (error + bool) \<times> GenomeReferenceRecord \<times> FastaFullFileIterable" where
  "Next_again 0 it out = Next it out"
| "Next_again (Suc n) it out = (case Next it out of (_, out2, it2) \<Rightarrow> Next_again n it2 out2)"

subsection \<open>The construction invariants of the spec\<close>

text \<open>
  The invariants I1, I2 and I3 in the spec's words, with the coordinates read as signed
  integers, and the map from each reference name to the sequence of that name.
\<close>

definition I1 :: "ReferenceSequence \<Rightarrow> bool" where
  "I1 e \<longleftrightarrow> reference_name (region e) \<noteq> [] \<and> 0 \<le> sint (start (region e)) \<and>
     sint (start (region e)) \<le> sint (end' (region e))"

definition I2 :: "ReferenceSequence \<Rightarrow> bool" where
  "I2 e \<longleftrightarrow> int (length (bases e)) = sint (end' (region e)) - sint (start (region e))"

definition I3 :: "ReferenceSequence list \<Rightarrow> bool" where
  "I3 seqs \<longleftrightarrow> distinct (map (\<lambda>e. reference_name (region e)) seqs)"

definition by_name :: "ReferenceSequence list \<Rightarrow> seqs_map" where
  "by_name seqs = map_of (map (\<lambda>e. (reference_name (region e), e)) seqs)"

text \<open>
  What the spec calls a violation at a sequence, given the sequences accepted before it:
  a malformed region (empty reference name, \<open>start < 0\<close> or \<open>start > end\<close>), a bases
  string whose length differs from \<open>end - start\<close>, or a reference name that an accepted
  sequence already has.
\<close>

definition violates :: "ReferenceSequence list \<Rightarrow> ReferenceSequence \<Rightarrow> bool" where
  "violates accepted seq \<longleftrightarrow>
     (reference_name (region seq) = [] \<or> sint (start (region seq)) < 0 \<or>
        sint (end' (region seq)) < sint (start (region seq))) \<or>
     int (length (bases seq)) \<noteq> sint (end' (region seq)) - sint (start (region seq)) \<or>
     (\<exists>a\<in>set accepted. reference_name (region a) = reference_name (region seq))"

text \<open>The substring of the spec: from an offset, of a given length.\<close>

definition substring :: "string \<Rightarrow> int \<Rightarrow> int \<Rightarrow> string" where
  "substring s offset len = take (nat len) (drop (nat offset) s)"

text \<open>
  The record a traversal emits for a contig whose name has a sequence, and whether a
  contig's name has one.
\<close>

definition record_of :: "InMemoryFastaReader \<Rightarrow> ContigInfo \<Rightarrow> GenomeReferenceRecord" where
  "record_of s c = (name c, bases (the (seqs' s (name c))))"

definition cached :: "InMemoryFastaReader \<Rightarrow> ContigInfo \<Rightarrow> bool" where
  "cached s c \<longleftrightarrow> seqs' s (name c) \<noteq> None"

subsection \<open>Sample data\<close>

definition chr1_seq :: ReferenceSequence where
  "chr1_seq = \<lparr>region = \<lparr>reference_name = ''chr1'', start = 100, end' = 104\<rparr>, bases = ''ACGT''\<rparr>"

definition chr2_seq :: ReferenceSequence where
  "chr2_seq = \<lparr>region = \<lparr>reference_name = ''chr2'', start = 0, end' = 2\<rparr>, bases = ''GG''\<rparr>"

definition chr1_contig :: ContigInfo where
  "chr1_contig = \<lparr>name = ''chr1'', pos_in_fasta = 0, n_bases = 200\<rparr>"

definition chr2_contig :: ContigInfo where
  "chr2_contig = \<lparr>name = ''chr2'', pos_in_fasta = 1, n_bases = 2\<rparr>"

text \<open>The reader that \<open>Create\<close> builds from both sequences, and the one from \<open>chr2_seq\<close> alone.\<close>

definition both_cached :: InMemoryFastaReader where
  "both_cached = \<lparr>contigs' = [chr1_contig, chr2_contig], seqs' = by_name [chr1_seq, chr2_seq]\<rparr>"

definition only_chr2_cached :: InMemoryFastaReader where
  "only_chr2_cached = \<lparr>contigs' = [chr1_contig, chr2_contig], seqs' = by_name [chr2_seq]\<rparr>"

lemmas sample_defs = chr1_seq_def chr2_seq_def chr1_contig_def chr2_contig_def
  both_cached_def only_chr2_cached_def by_name_def

section \<open>Arithmetic of coordinates\<close>

lemma uint_eq_sint:
  fixes a :: int64
  assumes "0 \<le> sint a"
  shows "uint a = sint a"
proof -
  have "sint a < 2 ^ 63" using sint_lt [of a] by simp
  then have "sint a < 2 ^ 64" by simp
  with assms have "take_bit 64 (sint a) = sint a" by (rule take_bit_int_eq_self)
  then show ?thesis using uint_sint [of a] by simp
qed

lemma unat_diff_sint:
  fixes a b :: int64
  assumes "0 \<le> sint a" "sint a \<le> sint b"
  shows "unat (b - a) = nat (sint b - sint a)"
proof -
  have a: "uint a = sint a" using assms by (simp add: uint_eq_sint)
  have b: "uint b = sint b" using assms by (simp add: uint_eq_sint)
  have "uint a \<le> uint b" using a b assms by simp
  then have "a \<le> b" by (simp add: word_le_def)
  then have "unat (b - a) = unat b - unat a" by (rule unat_sub)
  also have "\<dots> = nat (uint b - uint a)" by (simp add: nat_diff_distrib')
  finally show ?thesis using a b by simp
qed

section \<open>What Create builds\<close>

lemma I1_IsValidInterval: "I1 e \<longleftrightarrow> IsValidInterval (region e)"
  by (simp add: I1_def IsValidInterval_def word_sle_eq)

lemma region_len_I2:
  assumes "I1 e"
  shows "unat (end' (region e) - start (region e)) = length (bases e) \<longleftrightarrow> I2 e"
proof -
  have "unat (end' (region e) - start (region e)) =
      nat (sint (end' (region e)) - sint (start (region e)))"
    using assms by (simp add: I1_def unat_diff_sint)
  moreover have "0 \<le> sint (end' (region e)) - sint (start (region e))"
    using assms by (simp add: I1_def)
  ultimately show ?thesis by (auto simp: I2_def)
qed

lemma Create_loop_Cons:
  "Create_loop m (e # es) =
     (if I1 e \<and> I2 e \<and> m (reference_name (region e)) = None
      then Create_loop (m(reference_name (region e) \<mapsto> e)) es
      else Inl InvalidArgument)"
proof (cases "I1 e")
  case True
  then have "\<not> (reference_name (region e) = [] \<or> start (region e) <s 0 \<or>
      end' (region e) <s start (region e))"
    by (auto simp: I1_def word_sless_alt)
  then show ?thesis
    using True region_len_I2 [OF True]
    by (auto simp: Let_def emplace_def split: option.splits)
next
  case False
  then have "reference_name (region e) = [] \<or> start (region e) <s 0 \<or>
      end' (region e) <s start (region e)"
    by (auto simp: I1_def word_sless_alt)
  then show ?thesis using False by simp
qed

lemma Create_loop_append:
  "Create_loop m (xs @ ys) =
     (case Create_loop m xs of Inl err \<Rightarrow> Inl err | Inr m2 \<Rightarrow> Create_loop m2 ys)"
  by (induction xs arbitrary: m) (auto simp: Create_loop_Cons simp del: Create_loop.simps(2))

lemma by_name_Cons:
  "m (reference_name (region e)) = None \<Longrightarrow>
     by_name (e # es) ++ m = by_name es ++ m(reference_name (region e) \<mapsto> e)"
  by (rule ext) (auto simp: by_name_def map_add_def split: option.splits)

lemma Create_loop_Inr_iff:
  "Create_loop m seqs = Inr m2 \<longleftrightarrow>
     (\<forall>e\<in>set seqs. I1 e \<and> I2 e \<and> m (reference_name (region e)) = None) \<and> I3 seqs \<and>
     m2 = by_name seqs ++ m"
proof (induction seqs arbitrary: m)
  case Nil
  then show ?case by (auto simp: I3_def by_name_def)
next
  case (Cons e es)
  show ?case
  proof (cases "I1 e \<and> I2 e \<and> m (reference_name (region e)) = None")
    case True
    then have "Create_loop m (e # es) = Inr m2 \<longleftrightarrow>
        Create_loop (m(reference_name (region e) \<mapsto> e)) es = Inr m2"
      by (simp add: Create_loop_Cons del: Create_loop.simps(2))
    also have "\<dots> \<longleftrightarrow> (\<forall>x\<in>set es. I1 x \<and> I2 x \<and>
          (m(reference_name (region e) \<mapsto> e)) (reference_name (region x)) = None) \<and> I3 es \<and>
        m2 = by_name es ++ m(reference_name (region e) \<mapsto> e)"
      by (rule Cons.IH)
    also have "\<dots> \<longleftrightarrow> (\<forall>x\<in>set (e # es). I1 x \<and> I2 x \<and> m (reference_name (region x)) = None) \<and>
        I3 (e # es) \<and> m2 = by_name (e # es) ++ m"
      using True by (auto simp: I3_def by_name_Cons image_iff)
    finally show ?thesis .
  next
    case False
    then show ?thesis by (auto simp: Create_loop_Cons simp del: Create_loop.simps(2))
  qed
qed

lemma Create_Inr_iff:
  "Create contigs seqs = Inr s \<longleftrightarrow>
     (\<forall>e\<in>set seqs. I1 e \<and> I2 e) \<and> I3 seqs \<and> s = \<lparr>contigs' = contigs, seqs' = by_name seqs\<rparr>"
proof (cases "Create_loop Map.empty seqs")
  case (Inl err)
  then show ?thesis using Create_loop_Inr_iff [of Map.empty seqs]
    by (auto simp: Create_def)
next
  case (Inr m)
  then show ?thesis using Create_loop_Inr_iff [of Map.empty seqs m]
    by (auto simp: Create_def)
qed

lemma by_name_Some_iff:
  "I3 seqs \<Longrightarrow> by_name seqs k = Some e \<longleftrightarrow> e \<in> set seqs \<and> reference_name (region e) = k"
  by (auto simp: I3_def by_name_def comp_def)

lemma by_name_permute:
  assumes "I3 xs" and "I3 ys" and "set xs = set ys"
  shows "by_name xs = by_name ys"
proof (rule ext)
  fix k
  have same: "by_name xs k = Some e \<longleftrightarrow> by_name ys k = Some e" for e
    using assms by (simp add: by_name_Some_iff)
  show "by_name xs k = by_name ys k"
  proof (cases "by_name xs k")
    case None
    have "by_name ys k = None"
    proof (rule ccontr)
      assume "by_name ys k \<noteq> None"
      then obtain e where "by_name ys k = Some e" by auto
      then have "by_name xs k = Some e" by (simp only: same)
      with None show False by simp
    qed
    with None show ?thesis by simp
  next
    case (Some e)
    then have "by_name ys k = Some e" by (simp only: same)
    with Some show ?thesis by simp
  qed
qed

lemma violates_iff:
  "violates accepted seq \<longleftrightarrow>
     \<not> (I1 seq \<and> I2 seq \<and> by_name accepted (reference_name (region seq)) = None)"
  by (fastforce simp: violates_def I1_def I2_def by_name_def map_of_eq_None_iff image_iff)

lemma no_violation_iff:
  "(\<forall>j<length xs. \<not> violates (take j xs) (xs ! j)) \<longleftrightarrow> (\<forall>e\<in>set xs. I1 e \<and> I2 e) \<and> I3 xs"
proof (induction xs rule: rev_induct)
  case Nil
  then show ?case by (simp add: I3_def)
next
  case (snoc x xs)
  have "(\<forall>j<length (xs @ [x]). \<not> violates (take j (xs @ [x])) ((xs @ [x]) ! j)) \<longleftrightarrow>
      (\<forall>j<length xs. \<not> violates (take j xs) (xs ! j)) \<and> \<not> violates xs x"
    by (auto simp: less_Suc_eq nth_append)
  also have "\<dots> \<longleftrightarrow> ((\<forall>e\<in>set xs. I1 e \<and> I2 e) \<and> I3 xs) \<and> \<not> violates xs x"
    by (simp only: snoc.IH)
  also have "\<dots> \<longleftrightarrow> (\<forall>e\<in>set (xs @ [x]). I1 e \<and> I2 e) \<and> I3 (xs @ [x])"
    by (auto simp: violates_def I1_def I2_def I3_def image_iff)
  finally show ?case .
qed

lemma Create_loop_prefix:
  assumes "i \<le> length seqs" and "\<forall>j<i. \<not> violates (take j seqs) (seqs ! j)"
  shows "Create_loop Map.empty (take i seqs) = Inr (by_name (take i seqs))"
proof -
  have "\<forall>j<length (take i seqs). \<not> violates (take j (take i seqs)) (take i seqs ! j)"
    using assms by (simp add: min_absorb1)
  then have "(\<forall>e\<in>set (take i seqs). I1 e \<and> I2 e) \<and> I3 (take i seqs)"
    by (rule no_violation_iff [THEN iffD1])
  then show ?thesis by (auto simp: Create_loop_Inr_iff)
qed

lemma Create_loop_rejects:
  assumes "\<not> (I1 e \<and> I2 e \<and> m (reference_name (region e)) = None)"
  shows "Create_loop m (e # es) = Inl InvalidArgument"
  by (subst Create_loop_Cons) (simp only: assms if_False)

lemma dom_by_name: "dom (by_name xs) = (\<lambda>e. reference_name (region e)) ` set xs"
  by (simp add: by_name_def dom_map_of_conv_image_fst image_image)

section \<open>What GetBases returns inside the cached region\<close>

lemma GetBases_contained:
  assumes valid: "IsValidInterval q"
    and entry: "seqs' s (reference_name q) = Some e"
    and e: "I1 e" "I2 e"
    and lo: "sint (start (region e)) \<le> sint (start q)"
    and hi: "sint (end' q) \<le> sint (end' (region e))"
  shows "GetBases s q =
     Inr (substring (bases e) (sint (start q) - sint (start (region e)))
       (sint (end' q) - sint (start q)))"
    and "int (length (substring (bases e) (sint (start q) - sint (start (region e)))
       (sint (end' q) - sint (start q)))) = sint (end' q) - sint (start q)"
proof -
  have q: "0 \<le> sint (start q)" "sint (start q) \<le> sint (end' q)"
    using valid by (simp_all add: IsValidInterval_def word_sle_eq)
  have es: "0 \<le> sint (start (region e))" using e by (simp add: I1_def)
  have inside: "\<not> (start q <s start (region e) \<or> end' (region e) <s end' q)"
    using lo hi by (simp add: word_sless_alt)
  have len: "unat (end' q - start q) = nat (sint (end' q) - sint (start q))"
    using q by (rule unat_diff_sint)
  have pos: "unat (start q - start (region e)) = nat (sint (start q) - sint (start (region e)))"
    using es lo by (rule unat_diff_sint)
  have size: "int (length (bases e)) = sint (end' (region e)) - sint (start (region e))"
    using e by (simp add: I2_def)
  have fits: "\<not> length (bases e) < nat (sint (start q) - sint (start (region e)))"
    using size q lo hi by linarith
  show "GetBases s q =
     Inr (substring (bases e) (sint (start q) - sint (start (region e)))
       (sint (end' q) - sint (start q)))"
    using valid entry inside fits
    by (simp add: GetBases_def at_def substr_def substring_def Let_def len pos)
  show "int (length (substring (bases e) (sint (start q) - sint (start (region e)))
       (sint (end' q) - sint (start q)))) = sint (end' q) - sint (start q)"
    using size q lo hi by (simp add: substring_def)
qed

lemma Create_entry:
  assumes "Create contigs seqs = Inr s" and "seqs' s k = Some e"
  shows "e \<in> set seqs \<and> reference_name (region e) = k \<and> I1 e \<and> I2 e"
  using assms by (auto simp: Create_Inr_iff by_name_Some_iff)

section \<open>What a traversal collects\<close>

declare traverse.simps [simp del]

lemma Next_alive:
  assumes "reader' it = Some s"
  shows "Next it out =
     (if length (contigs' s) \<le> pos' it then (Inr False, out, it)
      else case seqs' s (name (contigs' s ! pos' it)) of
        None \<Rightarrow> (Inr False, out, it)
      | Some e \<Rightarrow> (Inr True, (name (contigs' s ! pos' it), bases e), it\<lparr>pos' := Suc (pos' it)\<rparr>))"
  using assms by (simp add: Next_def CheckIsAlive_def Let_def split: option.splits)

lemma traverse_from:
  "reader' it = Some s \<Longrightarrow>
     traverse it out = map (record_of s) (takeWhile (cached s) (drop (pos' it) (contigs' s)))"
proof (induction it out rule: traverse.induct)
  case (1 it out)
  show ?case
  proof (cases "length (contigs' s) \<le> pos' it")
    case True
    then show ?thesis using "1.prems"
      by (simp add: traverse.simps [of it out] Next_alive)
  next
    case False
    then have split: "drop (pos' it) (contigs' s) =
        contigs' s ! pos' it # drop (Suc (pos' it)) (contigs' s)"
      by (simp add: Cons_nth_drop_Suc)
    show ?thesis
    proof (cases "seqs' s (name (contigs' s ! pos' it))")
      case None
      then have "\<not> cached s (contigs' s ! pos' it)" by (simp add: cached_def)
      then show ?thesis using "1.prems" False None split
        by (simp add: traverse.simps [of it out] Next_alive)
    next
      case (Some e)
      let ?out2 = "(name (contigs' s ! pos' it), bases e)"
      let ?it2 = "it\<lparr>pos' := Suc (pos' it)\<rparr>"
      have step: "Next it out = (Inr True, ?out2, ?it2)"
        using "1.prems" False Some by (simp add: Next_alive)
      have "traverse ?it2 ?out2 =
          map (record_of s) (takeWhile (cached s) (drop (pos' ?it2) (contigs' s)))"
        using "1.prems" by (intro "1.IH" [OF step [symmetric]]) simp_all
      moreover have "cached s (contigs' s ! pos' it)"
        using Some by (simp add: cached_def)
      moreover have "record_of s (contigs' s ! pos' it) = ?out2"
        using Some by (simp add: record_of_def)
      ultimately show ?thesis using step split
        by (simp add: traverse.simps [of it out])
    qed
  qed
qed

section \<open>Create and GetBases\<close>

text \<open>
  Claim C1 (round trip). For every contig list and every sequence list that satisfies I1
  and I2 at each sequence and I3 as a whole, \<open>Create\<close> succeeds, and on the reader it
  returns \<open>GetBases\<close> of the region of each input sequence returns exactly the bases of
  that sequence.
\<close>

theorem Create_GetBases_round_trip:
  assumes "\<forall>e\<in>set seqs. I1 e \<and> I2 e" and "I3 seqs"
  shows "\<exists>s. Create contigs seqs = Inr s \<and>
    (\<forall>e\<in>set seqs. GetBases s (region e) = Inr (bases e))"
proof -
  let ?s = "\<lparr>contigs' = contigs, seqs' = by_name seqs\<rparr>"
  have created: "Create contigs seqs = Inr ?s"
    using assms by (simp add: Create_Inr_iff)
  have "GetBases ?s (region e) = Inr (bases e)" if mem: "e \<in> set seqs" for e
  proof -
    have e: "I1 e" "I2 e" using assms(1) mem by simp_all
    have "seqs' ?s (reference_name (region e)) = Some e"
      using assms(2) mem by (simp add: by_name_Some_iff)
    then have "GetBases ?s (region e) =
        Inr (substring (bases e) (sint (start (region e)) - sint (start (region e)))
          (sint (end' (region e)) - sint (start (region e))))"
      using e by (intro GetBases_contained(1)) (simp_all add: I1_IsValidInterval)
    moreover have "nat (sint (end' (region e)) - sint (start (region e))) = length (bases e)"
      using e(2) by (simp add: I2_def)
    ultimately show ?thesis by (simp add: substring_def)
  qed
  with created show ?thesis by blast
qed

theorem Create_GetBases_round_trip_witness:
  "I1 chr1_seq \<and> I2 chr1_seq \<and> I1 chr2_seq \<and> I2 chr2_seq \<and> I3 [chr1_seq, chr2_seq] \<and>
   Create [chr1_contig, chr2_contig] [chr1_seq, chr2_seq] = Inr both_cached \<and>
   GetBases both_cached (region chr1_seq) = Inr ''ACGT'' \<and>
   GetBases both_cached (region chr2_seq) = Inr ''GG''"
proof -
  have h1: "\<forall>e\<in>set [chr1_seq, chr2_seq]. I1 e \<and> I2 e"
    by (simp add: I1_def I2_def chr1_seq_def chr2_seq_def)
  have h2: "I3 [chr1_seq, chr2_seq]"
    by (simp add: I3_def chr1_seq_def chr2_seq_def)
  have built: "Create [chr1_contig, chr2_contig] [chr1_seq, chr2_seq] = Inr both_cached"
    using h1 h2 by (simp add: Create_Inr_iff both_cached_def)
  from Create_GetBases_round_trip [OF h1 h2, of "[chr1_contig, chr2_contig]"]
  have "GetBases both_cached (region chr1_seq) = Inr (bases chr1_seq) \<and>
      GetBases both_cached (region chr2_seq) = Inr (bases chr2_seq)"
    by (simp add: built)
  then show ?thesis using h1 h2 built by (simp add: chr1_seq_def chr2_seq_def)
qed

text \<open>
  Claim C2 (first violation). \<open>Create\<close> scans the sequences in input order. At the
  first index \<open>i\<close> whose sequence violates a construction invariant with respect to the
  sequences before it (a malformed region, a length that differs from \<open>end - start\<close>, or
  the reference name of an earlier sequence), every sequence before \<open>i\<close> has been
  accepted into the map, the scan fails there with \<open>InvalidArgument\<close>, and so does
  \<open>Create\<close>; for a repeated name this \<open>i\<close> is the second occurrence. When no index
  violates, \<open>Create\<close> succeeds.
\<close>

theorem Create_first_violation:
  "(i < length seqs \<and> violates (take i seqs) (seqs ! i) \<and>
      (\<forall>j<i. \<not> violates (take j seqs) (seqs ! j)) \<longrightarrow>
        Create_loop Map.empty (take i seqs) = Inr (by_name (take i seqs)) \<and>
        dom (by_name (take i seqs)) = (\<lambda>e. reference_name (region e)) ` set (take i seqs) \<and>
        Create_loop (by_name (take i seqs)) (drop i seqs) = Inl InvalidArgument \<and>
        Create contigs seqs = Inl InvalidArgument) \<and>
   ((\<forall>j<length seqs. \<not> violates (take j seqs) (seqs ! j)) \<longrightarrow>
        Create contigs seqs = Inr \<lparr>contigs' = contigs, seqs' = by_name seqs\<rparr>)"
proof (intro conjI impI)
  assume "\<forall>j<length seqs. \<not> violates (take j seqs) (seqs ! j)"
  then have "(\<forall>e\<in>set seqs. I1 e \<and> I2 e) \<and> I3 seqs"
    by (rule no_violation_iff [THEN iffD1])
  then show "Create contigs seqs = Inr \<lparr>contigs' = contigs, seqs' = by_name seqs\<rparr>"
    by (auto simp: Create_Inr_iff)
next
  assume a: "i < length seqs \<and> violates (take i seqs) (seqs ! i) \<and>
      (\<forall>j<i. \<not> violates (take j seqs) (seqs ! j))"
  then have prefix: "Create_loop Map.empty (take i seqs) = Inr (by_name (take i seqs))"
    by (intro Create_loop_prefix) simp_all
  have next_one: "drop i seqs = seqs ! i # drop (Suc i) seqs"
    using a by (simp add: Cons_nth_drop_Suc)
  have "\<not> (I1 (seqs ! i) \<and> I2 (seqs ! i) \<and>
      by_name (take i seqs) (reference_name (region (seqs ! i))) = None)"
    using a violates_iff [of "take i seqs" "seqs ! i"] by blast
  then have "Create_loop (by_name (take i seqs)) (seqs ! i # drop (Suc i) seqs) =
      Inl InvalidArgument"
    by (rule Create_loop_rejects)
  then have rest: "Create_loop (by_name (take i seqs)) (drop i seqs) = Inl InvalidArgument"
    by (simp only: next_one)
  have "Create_loop Map.empty seqs = Create_loop Map.empty (take i seqs @ drop i seqs)"
    by simp
  also have "\<dots> = Inl InvalidArgument"
    using prefix rest by (simp only: Create_loop_append sum.case)
  finally have whole: "Create contigs seqs = Inl InvalidArgument"
    by (simp add: Create_def)
  show "Create_loop Map.empty (take i seqs) = Inr (by_name (take i seqs))" by (rule prefix)
  show "dom (by_name (take i seqs)) = (\<lambda>e. reference_name (region e)) ` set (take i seqs)"
    by (rule dom_by_name)
  show "Create_loop (by_name (take i seqs)) (drop i seqs) = Inl InvalidArgument" by (rule rest)
  show "Create contigs seqs = Inl InvalidArgument" by (rule whole)
qed

text \<open>
  The sequences \<open>chr2_seq, chr1_seq, chr1_seq\<close> repeat a name: the violation is at
  index 2, the second \<open>chr1_seq\<close>, after the first two have been accepted. The
  sequences \<open>chr1_seq, chr2_seq\<close> have no violation.
\<close>

theorem Create_first_violation_witness:
  "violates [chr2_seq, chr1_seq] chr1_seq \<and>
   Create_loop Map.empty [chr2_seq, chr1_seq] = Inr (by_name [chr2_seq, chr1_seq]) \<and>
   dom (by_name [chr2_seq, chr1_seq]) = {''chr2'', ''chr1''} \<and>
   Create_loop (by_name [chr2_seq, chr1_seq]) [chr1_seq] = Inl InvalidArgument \<and>
   Create [chr1_contig, chr2_contig] [chr2_seq, chr1_seq, chr1_seq] = Inl InvalidArgument \<and>
   Create [chr1_contig, chr2_contig] [chr1_seq, chr2_seq] = Inr both_cached"
proof -
  let ?dup = "[chr2_seq, chr1_seq, chr1_seq]"
  have v0: "\<not> violates [] chr2_seq" and v1: "\<not> violates [chr2_seq] chr1_seq"
    and v2: "violates [chr2_seq, chr1_seq] chr1_seq"
    and w1: "\<not> violates [] chr1_seq" and w2: "\<not> violates [chr1_seq] chr2_seq"
    by (simp_all add: violates_def chr1_seq_def chr2_seq_def)
  have first: "2 < length ?dup \<and> violates (take 2 ?dup) (?dup ! 2) \<and>
      (\<forall>j<2. \<not> violates (take j ?dup) (?dup ! j))"
    using v0 v1 v2 by (simp add: less_Suc_eq numeral_2_eq_2)
  have none: "\<forall>j<length [chr1_seq, chr2_seq].
      \<not> violates (take j [chr1_seq, chr2_seq]) ([chr1_seq, chr2_seq] ! j)"
    using w1 w2 by (simp add: less_Suc_eq)
  from Create_first_violation [of 2 ?dup "[chr1_contig, chr2_contig]"] first
  have "Create_loop Map.empty (take 2 ?dup) = Inr (by_name (take 2 ?dup)) \<and>
      dom (by_name (take 2 ?dup)) = (\<lambda>e. reference_name (region e)) ` set (take 2 ?dup) \<and>
      Create_loop (by_name (take 2 ?dup)) (drop 2 ?dup) = Inl InvalidArgument \<and>
      Create [chr1_contig, chr2_contig] ?dup = Inl InvalidArgument"
    by blast
  moreover have "take 2 ?dup = [chr2_seq, chr1_seq]" "drop 2 ?dup = [chr1_seq]"
    by (simp_all add: numeral_2_eq_2)
  moreover have "(\<lambda>e. reference_name (region e)) ` set [chr2_seq, chr1_seq] = {''chr2'', ''chr1''}"
    by (simp add: chr1_seq_def chr2_seq_def)
  moreover from Create_first_violation [of 0 "[chr1_seq, chr2_seq]" "[chr1_contig, chr2_contig]"] none
  have "Create [chr1_contig, chr2_contig] [chr1_seq, chr2_seq] = Inr both_cached"
    unfolding both_cached_def by blast
  ultimately show ?thesis using v2 by simp
qed

text \<open>
  Claim C3 (contained query). On a reader that \<open>Create\<close> returned, a well-formed query
  whose reference name has an entry and which lies inside the entry's region succeeds:
  \<open>GetBases\<close> returns the substring of the entry's bases that starts at offset
  \<open>query.start - entry.region.start\<close> and has length \<open>query.end - query.start\<close>
  (the returned string has exactly that length). A query with equal start and end returns
  the empty string.
\<close>

theorem GetBases_substring:
  assumes "Create contigs seqs = Inr s"
    and "IsValidInterval q"
    and "seqs' s (reference_name q) = Some e"
    and "sint (start (region e)) \<le> sint (start q)"
    and "sint (end' q) \<le> sint (end' (region e))"
  shows "GetBases s q =
      Inr (substring (bases e) (sint (start q) - sint (start (region e)))
        (sint (end' q) - sint (start q))) \<and>
    int (length (substring (bases e) (sint (start q) - sint (start (region e)))
        (sint (end' q) - sint (start q)))) = sint (end' q) - sint (start q) \<and>
    (start q = end' q \<longrightarrow> GetBases s q = Inr [])"
proof -
  have e: "I1 e" "I2 e" using Create_entry [OF assms(1,3)] by simp_all
  note gb = GetBases_contained [OF assms(2,3) e assms(4,5)]
  have "GetBases s q = Inr []" if "start q = end' q"
    using gb(1) that by (simp add: substring_def)
  with gb show ?thesis by simp
qed

text \<open>
  On the reader with \<open>chr1\<close> cached over \<open>[100, 104)\<close> as \<open>ACGT\<close>: the query
  \<open>[101, 103)\<close> returns \<open>CG\<close>, and the query \<open>[102, 102)\<close> returns the empty string.
\<close>

theorem GetBases_substring_witness:
  "Create [chr1_contig, chr2_contig] [chr1_seq, chr2_seq] = Inr both_cached \<and>
   IsValidInterval \<lparr>reference_name = ''chr1'', start = 101, end' = 103\<rparr> \<and>
   seqs' both_cached ''chr1'' = Some chr1_seq \<and>
   GetBases both_cached \<lparr>reference_name = ''chr1'', start = 101, end' = 103\<rparr> = Inr ''CG'' \<and>
   IsValidInterval \<lparr>reference_name = ''chr1'', start = 102, end' = 102\<rparr> \<and>
   GetBases both_cached \<lparr>reference_name = ''chr1'', start = 102, end' = 102\<rparr> = Inr []"
proof -
  let ?q = "\<lparr>reference_name = ''chr1'', start = 101, end' = 103\<rparr> :: Range"
  let ?point = "\<lparr>reference_name = ''chr1'', start = 102, end' = 102\<rparr> :: Range"
  have built: "Create [chr1_contig, chr2_contig] [chr1_seq, chr2_seq] = Inr both_cached"
    by (simp add: Create_Inr_iff both_cached_def I1_def I2_def I3_def chr1_seq_def chr2_seq_def)
  have valid: "IsValidInterval ?q" "IsValidInterval ?point"
    by (simp_all add: IsValidInterval_def word_sle_eq)
  have entry: "seqs' both_cached (reference_name ?q) = Some chr1_seq"
    "seqs' both_cached (reference_name ?point) = Some chr1_seq"
    by (simp_all add: sample_defs)
  have inside: "sint (start (region chr1_seq)) \<le> sint (start ?q)"
    "sint (end' ?q) \<le> sint (end' (region chr1_seq))"
    "sint (start (region chr1_seq)) \<le> sint (start ?point)"
    "sint (end' ?point) \<le> sint (end' (region chr1_seq))"
    by (simp_all add: chr1_seq_def)
  have "GetBases both_cached ?q = Inr ''CG''"
    using GetBases_substring [OF built valid(1) entry(1) inside(1,2)]
    by (simp add: substring_def chr1_seq_def)
  moreover have "GetBases both_cached ?point = Inr []"
    using GetBases_substring [OF built valid(2) entry(2) inside(3,4)] by simp
  ultimately show ?thesis using built valid entry by simp
qed

text \<open>
  Claim C4 (containment). For every reader and every well-formed query whose reference
  name has an entry, \<open>GetBases\<close> fails with \<open>InvalidArgument\<close> exactly when the query
  starts before the entry's region or ends after it. A query that overlaps the region
  only in part is therefore rejected, and no clipped string is returned.
\<close>

theorem GetBases_InvalidArgument_iff:
  assumes "IsValidInterval q" and "seqs' s (reference_name q) = Some e"
  shows "GetBases s q = Inl InvalidArgument \<longleftrightarrow>
     sint (start q) < sint (start (region e)) \<or> sint (end' (region e)) < sint (end' q)"
  using assms
  by (auto simp: GetBases_def at_def substr_def Let_def word_sless_alt)

text \<open>
  On the same reader the query \<open>[98, 102)\<close> overlaps the cached \<open>[100, 104)\<close> in part and
  fails; the query \<open>[100, 104)\<close> does not fail with \<open>InvalidArgument\<close>.
\<close>

theorem GetBases_InvalidArgument_iff_witness:
  "IsValidInterval \<lparr>reference_name = ''chr1'', start = 98, end' = 102\<rparr> \<and>
   seqs' both_cached ''chr1'' = Some chr1_seq \<and>
   GetBases both_cached \<lparr>reference_name = ''chr1'', start = 98, end' = 102\<rparr> = Inl InvalidArgument \<and>
   IsValidInterval \<lparr>reference_name = ''chr1'', start = 100, end' = 104\<rparr> \<and>
   GetBases both_cached \<lparr>reference_name = ''chr1'', start = 100, end' = 104\<rparr> \<noteq> Inl InvalidArgument"
proof -
  let ?q = "\<lparr>reference_name = ''chr1'', start = 98, end' = 102\<rparr> :: Range"
  let ?full = "\<lparr>reference_name = ''chr1'', start = 100, end' = 104\<rparr> :: Range"
  have valid: "IsValidInterval ?q" "IsValidInterval ?full"
    by (simp_all add: IsValidInterval_def word_sle_eq)
  have entry: "seqs' both_cached (reference_name ?q) = Some chr1_seq"
    "seqs' both_cached (reference_name ?full) = Some chr1_seq"
    by (simp_all add: sample_defs)
  have "GetBases both_cached ?q = Inl InvalidArgument"
    using GetBases_InvalidArgument_iff [OF valid(1) entry(1)] by (simp add: chr1_seq_def)
  moreover have "GetBases both_cached ?full \<noteq> Inl InvalidArgument"
    using GetBases_InvalidArgument_iff [OF valid(2) entry(2)] by (simp add: chr1_seq_def)
  ultimately show ?thesis using valid entry by simp
qed

text \<open>
  Claim C7 (absent contig). The claim as stated, that a well-formed query whose reference
  name has no entry fails with \<open>InvalidArgument\<close>, does not hold: on the reader with only
  \<open>chr2\<close> cached, the well-formed query \<open>chr1:[0, 1)\<close> does not fail with
  \<open>InvalidArgument\<close>.
\<close>

theorem GetBases_absent_counterexample:
  "Create [chr1_contig, chr2_contig] [chr2_seq] = Inr only_chr2_cached \<and>
   IsValidInterval \<lparr>reference_name = ''chr1'', start = 0, end' = 1\<rparr> \<and>
   seqs' only_chr2_cached ''chr1'' = None \<and>
   GetBases only_chr2_cached \<lparr>reference_name = ''chr1'', start = 0, end' = 1\<rparr> \<noteq> Inl InvalidArgument"
  by (simp add: Create_def emplace_def GetBases_def at_def IsValidInterval_def sample_defs
      word_sless_alt word_sle_eq)

text \<open>
  Claim C7 as amended. For every reader and every well-formed query whose reference name
  has no entry, \<open>GetBases\<close> returns neither a string nor \<open>InvalidArgument\<close>: the
  lookup \<^verbatim>\<open>seqs_.at\<close> throws \<^verbatim>\<open>std::out_of_range\<close>.
\<close>

theorem GetBases_absent_throws:
  assumes "IsValidInterval q" and "seqs' s (reference_name q) = None"
  shows "GetBases s q = Inl std_out_of_range"
  using assms by (simp add: GetBases_def at_def)

theorem GetBases_absent_throws_witness:
  "IsValidInterval \<lparr>reference_name = ''chr1'', start = 0, end' = 1\<rparr> \<and>
   seqs' only_chr2_cached ''chr1'' = None \<and>
   GetBases only_chr2_cached \<lparr>reference_name = ''chr1'', start = 0, end' = 1\<rparr> = Inl std_out_of_range"
proof -
  let ?q = "\<lparr>reference_name = ''chr1'', start = 0, end' = 1\<rparr> :: Range"
  have valid: "IsValidInterval ?q"
    by (simp add: IsValidInterval_def word_sle_eq)
  have absent: "seqs' only_chr2_cached (reference_name ?q) = None"
    by (simp add: sample_defs)
  show ?thesis using valid absent GetBases_absent_throws [OF valid absent] by simp
qed

section \<open>Create and the contig list\<close>

text \<open>
  Claim C8 (I4 is not enforced). For every contig list and every sequence list that
  satisfies I1, I2 and I3, \<open>Create\<close> succeeds, whatever the contig list is: also when a
  sequence's reference name is the name of no contig, and when a contig has no sequence.
  Whether \<open>Create\<close> fails, and with which error, depends on the sequences only: two
  contig lists give the same outcome.
\<close>

theorem Create_ignores_contigs:
  "((\<forall>e\<in>set seqs. I1 e \<and> I2 e) \<and> I3 seqs \<longrightarrow>
      Create contigs seqs = Inr \<lparr>contigs' = contigs, seqs' = by_name seqs\<rparr>) \<and>
   (Create contigs seqs = Inl err \<longleftrightarrow> Create contigs2 seqs = Inl err) \<and>
   ((\<exists>s. Create contigs seqs = Inr s) \<longleftrightarrow> (\<exists>s. Create contigs2 seqs = Inr s))"
proof (intro conjI impI)
  assume "(\<forall>e\<in>set seqs. I1 e \<and> I2 e) \<and> I3 seqs"
  then show "Create contigs seqs = Inr \<lparr>contigs' = contigs, seqs' = by_name seqs\<rparr>"
    by (auto simp: Create_Inr_iff)
next
  show "Create contigs seqs = Inl err \<longleftrightarrow> Create contigs2 seqs = Inl err"
    by (simp add: Create_def split: sum.splits)
next
  show "(\<exists>s. Create contigs seqs = Inr s) \<longleftrightarrow> (\<exists>s. Create contigs2 seqs = Inr s)"
    by (simp add: Create_def split: sum.splits)
qed

text \<open>
  The sequence \<open>chr1_seq\<close> with the contig list \<open>chr2_contig\<close>: the sequence's name is
  the name of no contig, the contig has no sequence, and \<open>Create\<close> succeeds, as it does
  with the empty contig list.
\<close>

theorem Create_ignores_contigs_witness:
  "I1 chr1_seq \<and> I2 chr1_seq \<and> I3 [chr1_seq] \<and>
   name chr2_contig \<noteq> reference_name (region chr1_seq) \<and>
   Create [chr2_contig] [chr1_seq] = Inr \<lparr>contigs' = [chr2_contig], seqs' = by_name [chr1_seq]\<rparr> \<and>
   Create [] [chr1_seq] = Inr \<lparr>contigs' = [], seqs' = by_name [chr1_seq]\<rparr>"
proof -
  have ok: "(\<forall>e\<in>set [chr1_seq]. I1 e \<and> I2 e) \<and> I3 [chr1_seq]"
    by (simp add: I1_def I2_def I3_def chr1_seq_def)
  have "Create [chr2_contig] [chr1_seq] =
      Inr \<lparr>contigs' = [chr2_contig], seqs' = by_name [chr1_seq]\<rparr>"
    using Create_ignores_contigs [of "[chr1_seq]" "[chr2_contig]"] ok by blast
  moreover have "Create [] [chr1_seq] = Inr \<lparr>contigs' = [], seqs' = by_name [chr1_seq]\<rparr>"
    using Create_ignores_contigs [of "[chr1_seq]" "[]"] ok by blast
  moreover have "name chr2_contig \<noteq> reference_name (region chr1_seq)"
    by (simp add: chr1_seq_def chr2_contig_def)
  ultimately show ?thesis using ok by simp
qed

section \<open>The iterator\<close>

text \<open>
  Claim C5 (early termination). When the iterator of a reader is at an index inside the
  contig list and the contig there has no sequence, \<open>Next\<close> returns "no more records" at
  once and changes nothing, whatever the later contigs are. A full traversal therefore
  yields the records of the longest prefix of the contig list whose names all have
  sequences.
\<close>

theorem Next_stops_at_uncached:
  "(reader' it = Some s \<and> pos' it < length (contigs' s) \<and>
      seqs' s (name (contigs' s ! pos' it)) = None \<longrightarrow> Next it out = (Inr False, out, it)) \<and>
   traverse (Iterate s) out = map (record_of s) (takeWhile (cached s) (contigs' s))"
proof (intro conjI impI)
  assume "reader' it = Some s \<and> pos' it < length (contigs' s) \<and>
      seqs' s (name (contigs' s ! pos' it)) = None"
  then show "Next it out = (Inr False, out, it)"
    by (simp add: Next_alive)
next
  have "reader' (Iterate s) = Some s" "pos' (Iterate s) = 0"
    by (simp_all add: Iterate_def)
  then show "traverse (Iterate s) out = map (record_of s) (takeWhile (cached s) (contigs' s))"
    using traverse_from [of "Iterate s" s out] by simp
qed

text \<open>
  The contigs \<open>chr1, chr2\<close> with only \<open>chr2\<close> cached: the first \<open>Next\<close> returns "no more
  records" although \<open>chr2\<close> has a sequence, and the traversal yields no record.
\<close>

theorem Next_stops_at_uncached_witness:
  "seqs' only_chr2_cached (name (contigs' only_chr2_cached ! 0)) = None \<and>
   seqs' only_chr2_cached (name (contigs' only_chr2_cached ! 1)) = Some chr2_seq \<and>
   Next (Iterate only_chr2_cached) ([], []) = (Inr False, ([], []), Iterate only_chr2_cached) \<and>
   traverse (Iterate only_chr2_cached) ([], []) = []"
proof -
  let ?it = "Iterate only_chr2_cached"
  have at0: "reader' ?it = Some only_chr2_cached \<and> pos' ?it < length (contigs' only_chr2_cached) \<and>
      seqs' only_chr2_cached (name (contigs' only_chr2_cached ! pos' ?it)) = None"
    by (simp add: Iterate_def sample_defs)
  have later: "seqs' only_chr2_cached (name (contigs' only_chr2_cached ! 1)) = Some chr2_seq"
    by (simp add: sample_defs)
  note inst = Next_stops_at_uncached [of ?it only_chr2_cached "([], [])"]
  have "Next ?it ([], []) = (Inr False, ([], []), ?it)"
    using inst at0 by blast
  moreover have "traverse ?it ([], []) =
      map (record_of only_chr2_cached) (takeWhile (cached only_chr2_cached) (contigs' only_chr2_cached))"
    using inst by blast
  then have "traverse ?it ([], []) = []"
    by (simp add: cached_def sample_defs)
  ultimately show ?thesis using at0 later by (simp add: Iterate_def)
qed

text \<open>
  Claim C6 (iteration order). On a reader that \<open>Create\<close> returned and whose contigs all
  have a sequence, a full traversal emits one record per contig, in the order of the
  contig list given to \<open>Create\<close>: the record at index \<open>i\<close> is the name of contig \<open>i\<close>
  with the bases of the input sequence of that name, and \<open>Next\<close> at position \<open>i\<close> emits
  that record and moves the position to \<open>i + 1\<close>. The order in which the sequences were
  given to \<open>Create\<close>, and so inserted into the map, plays no part: every permutation of
  the sequences gives the same reader.
\<close>

theorem traverse_in_contig_order:
  assumes "Create contigs seqs = Inr s" and "\<forall>c\<in>set contigs. cached s c"
  shows "traverse (Iterate s) out = map (record_of s) contigs \<and>
    length (traverse (Iterate s) out) = length contigs \<and>
    (\<forall>i<length contigs. \<exists>e\<in>set seqs.
       reference_name (region e) = name (contigs ! i) \<and>
       traverse (Iterate s) out ! i = (name (contigs ! i), bases e) \<and>
       Next \<lparr>reader' = Some s, pos' = i\<rparr> out =
         (Inr True, (name (contigs ! i), bases e), \<lparr>reader' = Some s, pos' = Suc i\<rparr>)) \<and>
    (\<forall>seqs2. mset seqs2 = mset seqs \<longrightarrow> Create contigs seqs2 = Inr s)"
proof -
  have s: "contigs' s = contigs" "seqs' s = by_name seqs"
    and ok: "\<forall>e\<in>set seqs. I1 e \<and> I2 e" "I3 seqs"
    using assms(1) by (auto simp: Create_Inr_iff)
  have "reader' (Iterate s) = Some s" "pos' (Iterate s) = 0"
    by (simp_all add: Iterate_def)
  then have "traverse (Iterate s) out = map (record_of s) (takeWhile (cached s) (contigs' s))"
    using traverse_from [of "Iterate s" s out] by simp
  moreover have "takeWhile (cached s) contigs = contigs"
    using assms(2) by (simp add: takeWhile_eq_all_conv)
  ultimately have all: "traverse (Iterate s) out = map (record_of s) contigs"
    by (simp add: s)
  have step: "\<exists>e\<in>set seqs.
       reference_name (region e) = name (contigs ! i) \<and>
       traverse (Iterate s) out ! i = (name (contigs ! i), bases e) \<and>
       Next \<lparr>reader' = Some s, pos' = i\<rparr> out =
         (Inr True, (name (contigs ! i), bases e), \<lparr>reader' = Some s, pos' = Suc i\<rparr>)"
    if i: "i < length contigs" for i
  proof -
    have "cached s (contigs ! i)" using assms(2) i by simp
    then obtain e where e: "by_name seqs (name (contigs ! i)) = Some e"
      by (auto simp: cached_def s)
    then have "e \<in> set seqs" "reference_name (region e) = name (contigs ! i)"
      using ok(2) by (simp_all add: by_name_Some_iff)
    moreover have "traverse (Iterate s) out ! i = (name (contigs ! i), bases e)"
      using i e by (simp add: all record_of_def s)
    moreover have "Next \<lparr>reader' = Some s, pos' = i\<rparr> out =
         (Inr True, (name (contigs ! i), bases e), \<lparr>reader' = Some s, pos' = Suc i\<rparr>)"
      using i e by (simp add: Next_alive s)
    ultimately show ?thesis by blast
  qed
  have perm: "Create contigs seqs2 = Inr s" if m: "mset seqs2 = mset seqs" for seqs2
  proof -
    have same: "set seqs2 = set seqs" using m by (rule mset_eq_setD)
    have "mset (map (\<lambda>e. reference_name (region e)) seqs2) =
        mset (map (\<lambda>e. reference_name (region e)) seqs)"
      using m by simp
    then have "distinct (map (\<lambda>e. reference_name (region e)) seqs2) \<longleftrightarrow>
        distinct (map (\<lambda>e. reference_name (region e)) seqs)"
      by (rule mset_eq_imp_distinct_iff)
    then have i3: "I3 seqs2"
      using ok(2) by (simp only: I3_def)
    have "by_name seqs2 = by_name seqs"
      using i3 ok(2) same by (rule by_name_permute)
    then show ?thesis
      using assms(1) ok(1) i3 same by (simp add: Create_Inr_iff)
  qed
  from all step perm show ?thesis by simp
qed

text \<open>
  The contigs \<open>chr2, chr1\<close>, both cached: the traversal yields \<open>chr2\<close> before \<open>chr1\<close>,
  whether the sequences were given as \<open>chr1_seq, chr2_seq\<close> or the other way round.
\<close>

theorem traverse_in_contig_order_witness:
  "Create [chr2_contig, chr1_contig] [chr1_seq, chr2_seq] =
     Inr \<lparr>contigs' = [chr2_contig, chr1_contig], seqs' = by_name [chr1_seq, chr2_seq]\<rparr> \<and>
   cached \<lparr>contigs' = [chr2_contig, chr1_contig], seqs' = by_name [chr1_seq, chr2_seq]\<rparr> chr2_contig \<and>
   cached \<lparr>contigs' = [chr2_contig, chr1_contig], seqs' = by_name [chr1_seq, chr2_seq]\<rparr> chr1_contig \<and>
   traverse (Iterate \<lparr>contigs' = [chr2_contig, chr1_contig], seqs' = by_name [chr1_seq, chr2_seq]\<rparr>)
     ([], []) = [(''chr2'', ''GG''), (''chr1'', ''ACGT'')] \<and>
   Create [chr2_contig, chr1_contig] [chr2_seq, chr1_seq] =
     Inr \<lparr>contigs' = [chr2_contig, chr1_contig], seqs' = by_name [chr1_seq, chr2_seq]\<rparr>"
proof -
  let ?s = "\<lparr>contigs' = [chr2_contig, chr1_contig], seqs' = by_name [chr1_seq, chr2_seq]\<rparr>"
  have built: "Create [chr2_contig, chr1_contig] [chr1_seq, chr2_seq] = Inr ?s"
    by (simp add: Create_Inr_iff I1_def I2_def I3_def chr1_seq_def chr2_seq_def)
  have c: "cached ?s chr2_contig" "cached ?s chr1_contig"
    by (simp_all add: cached_def sample_defs)
  then have all: "\<forall>c\<in>set [chr2_contig, chr1_contig]. cached ?s c" by simp
  note inst = traverse_in_contig_order [OF built all, of "([], [])"]
  have "traverse (Iterate ?s) ([], []) = map (record_of ?s) [chr2_contig, chr1_contig]"
    using inst by blast
  then have "traverse (Iterate ?s) ([], []) = [(''chr2'', ''GG''), (''chr1'', ''ACGT'')]"
    by (simp add: record_of_def sample_defs)
  moreover have "mset [chr2_seq, chr1_seq] = mset [chr1_seq, chr2_seq]"
    by (simp add: add.commute)
  then have "Create [chr2_contig, chr1_contig] [chr2_seq, chr1_seq] = Inr ?s"
    using inst by blast
  ultimately show ?thesis using built c by simp
qed

text \<open>
  Claim C9 (exhausted iterator). When the position of the iterator of a reader is at or
  past the end of the contig list, \<open>Next\<close> returns "no more records" and leaves the
  iterator (and the output record) as they were, so every later call of \<open>Next\<close> returns
  "no more records" again.
\<close>

theorem Next_exhausted_stable:
  assumes "reader' it = Some s" and "length (contigs' s) \<le> pos' it"
  shows "Next it out = (Inr False, out, it) \<and> (\<forall>n. Next_again n it out = (Inr False, out, it))"
proof -
  have once: "Next it out = (Inr False, out, it)"
    using assms by (simp add: Next_alive)
  have "Next_again n it out = (Inr False, out, it)" for n
    by (induction n) (simp_all add: once)
  with once show ?thesis by simp
qed

text \<open>
  After the traversal of the reader with both contigs cached the position is 2: \<open>Next\<close>
  returns "no more records" there, and so does the fourth call after it.
\<close>

theorem Next_exhausted_stable_witness:
  "length (contigs' both_cached) \<le> 2 \<and>
   Next \<lparr>reader' = Some both_cached, pos' = 2\<rparr> (''chr2'', ''GG'') =
     (Inr False, (''chr2'', ''GG''), \<lparr>reader' = Some both_cached, pos' = 2\<rparr>) \<and>
   Next_again 3 \<lparr>reader' = Some both_cached, pos' = 2\<rparr> (''chr2'', ''GG'') =
     (Inr False, (''chr2'', ''GG''), \<lparr>reader' = Some both_cached, pos' = 2\<rparr>)"
proof -
  let ?it = "\<lparr>reader' = Some both_cached, pos' = 2\<rparr>"
  have alive: "reader' ?it = Some both_cached" by simp
  have past: "length (contigs' both_cached) \<le> pos' ?it" by (simp add: both_cached_def)
  show ?thesis
    using Next_exhausted_stable [OF alive past, of "(''chr2'', ''GG'')"] past by simp
qed

text \<open>
  Claim C10 (output record). \<open>Next\<close> returns "no more records" exactly when the reader is
  alive and either the position is at or past the end of the contig list or the current
  contig has no sequence. On every such call the output record is left as it was; more
  generally, the output record is written only by a call that returns "record produced".
\<close>

theorem Next_leaves_out:
  "(fst (Next it out) = Inr False \<longleftrightarrow>
      (\<exists>s. reader' it = Some s \<and>
        (length (contigs' s) \<le> pos' it \<or> seqs' s (name (contigs' s ! pos' it)) = None))) \<and>
   (fst (Next it out) = Inr False \<longrightarrow> fst (snd (Next it out)) = out) \<and>
   (fst (snd (Next it out)) \<noteq> out \<longrightarrow> fst (Next it out) = Inr True)"
proof (cases "reader' it")
  case None
  then show ?thesis by (simp add: Next_def CheckIsAlive_def)
next
  case (Some s)
  then show ?thesis
    by (auto simp: Next_alive split: option.splits)
qed

text \<open>
  Both reasons on the reader with only \<open>chr2\<close> cached, and one call that writes: at
  position 0 the contig \<open>chr1\<close> has no sequence, at position 2 the list is exhausted, and
  in both cases the output record is unchanged; at position 1 \<open>Next\<close> produces the record
  of \<open>chr2\<close>.
\<close>

theorem Next_leaves_out_witness:
  "fst (Next \<lparr>reader' = Some only_chr2_cached, pos' = 0\<rparr> (''x'', ''y'')) = Inr False \<and>
   fst (snd (Next \<lparr>reader' = Some only_chr2_cached, pos' = 0\<rparr> (''x'', ''y''))) = (''x'', ''y'') \<and>
   fst (Next \<lparr>reader' = Some only_chr2_cached, pos' = 2\<rparr> (''x'', ''y'')) = Inr False \<and>
   fst (snd (Next \<lparr>reader' = Some only_chr2_cached, pos' = 2\<rparr> (''x'', ''y''))) = (''x'', ''y'') \<and>
   fst (snd (Next \<lparr>reader' = Some only_chr2_cached, pos' = 1\<rparr> (''x'', ''y''))) = (''chr2'', ''GG'') \<and>
   fst (Next \<lparr>reader' = Some only_chr2_cached, pos' = 1\<rparr> (''x'', ''y'')) = Inr True"
proof -
  let ?at0 = "\<lparr>reader' = Some only_chr2_cached, pos' = 0\<rparr>"
  let ?at1 = "\<lparr>reader' = Some only_chr2_cached, pos' = 1\<rparr>"
  let ?at2 = "\<lparr>reader' = Some only_chr2_cached, pos' = 2\<rparr>"
  let ?out = "(''x'', ''y'')"
  have uncached: "\<exists>s. reader' ?at0 = Some s \<and>
      (length (contigs' s) \<le> pos' ?at0 \<or> seqs' s (name (contigs' s ! pos' ?at0)) = None)"
    by (simp add: sample_defs)
  have exhausted: "\<exists>s. reader' ?at2 = Some s \<and>
      (length (contigs' s) \<le> pos' ?at2 \<or> seqs' s (name (contigs' s ! pos' ?at2)) = None)"
    by (simp add: sample_defs)
  have written: "fst (snd (Next ?at1 ?out)) = (''chr2'', ''GG'')"
    by (simp add: Next_alive sample_defs)
  then have changed: "fst (snd (Next ?at1 ?out)) \<noteq> ?out" by simp
  have "fst (Next ?at0 ?out) = Inr False \<and> fst (snd (Next ?at0 ?out)) = ?out"
    using Next_leaves_out [of ?at0 ?out] uncached by blast
  moreover have "fst (Next ?at2 ?out) = Inr False \<and> fst (snd (Next ?at2 ?out)) = ?out"
    using Next_leaves_out [of ?at2 ?out] exhausted by blast
  moreover have "fst (Next ?at1 ?out) = Inr True"
    using Next_leaves_out [of ?at1 ?out] changed by blast
  ultimately show ?thesis using written by simp
qed

end
